theory Spec2Isabelle
  imports Complex_Main "HOL-Library.AList" "HOL-Library.Sublist" "HOL-Library.List_Lexorder"
begin

section \<open>Ingestion store (server/routes.ts)\<close>

text \<open>
  \<^verbatim>\<open>GameInstance\<close> of shared/schema.ts. The open \<^verbatim>\<open>properties\<close> record is kept as
  an association list from property name to the rendered value; \<^verbatim>\<open>parent\<close> is
  nullable.
\<close>

record GameInstance =
  inst_id :: string
  name :: string
  className :: string
  path :: string
  parent :: "string option"
  properties :: "(string \<times> string) list"
  children :: "string list"

text \<open>\<^verbatim>\<open>ConnectionStatus\<close> of shared/schema.ts; dates are millisecond time stamps.\<close>

record ConnectionStatus =
  conn_id :: string
  isConnected :: bool
  connectedAt :: "nat option"
  lastPing :: "nat option"
  gameName :: "string option"
  placeId :: "string option"

text \<open>
  The module-level variables of routes.ts. \<^verbatim>\<open>cachedResponse\<close> and
  \<^verbatim>\<open>cachedConnectionResponse\<close> hold \<^verbatim>\<open>JSON.stringify\<close> of a value; the model
  keeps the value that was serialised. \<^verbatim>\<open>instancesMap\<close> is never iterated, so
  a partial function stands for the JavaScript \<^verbatim>\<open>Map\<close>.
\<close>

record server_state =
  fastInstances :: "GameInstance list"
  instancesMap :: "string \<rightharpoonup> GameInstance"
  fastConnection :: ConnectionStatus
  lastDataUpdate :: nat
  cachedResponse :: "GameInstance list"
  cachedConnectionResponse :: ConnectionStatus

definition initial_connection :: ConnectionStatus where
  "initial_connection =
     \<lparr>conn_id = ''roblox-client'', isConnected = False, connectedAt = None,
      lastPing = None, gameName = None, placeId = None\<rparr>"

definition initial_state :: server_state where
  "initial_state =
     \<lparr>fastInstances = [], instancesMap = Map.empty, fastConnection = initial_connection,
      lastDataUpdate = 0, cachedResponse = [],
      cachedConnectionResponse = initial_connection\<rparr>"

text \<open>\<^verbatim>\<open>for (const instance of xs) instancesMap.set(instance.path, instance)\<close>\<close>

fun set_all :: "GameInstance list \<Rightarrow> (string \<rightharpoonup> GameInstance) \<Rightarrow> (string \<rightharpoonup> GameInstance)" where
  "set_all [] m = m"
| "set_all (instance # xs) m = set_all xs (m(path instance \<mapsto> instance))"

text \<open>GET /api/instances answers with the cached serialisation (the ETag short cut
  returns status 304 with no body and is left out).\<close>

definition get_instances :: "server_state \<Rightarrow> GameInstance list" where
  "get_instances st = cachedResponse st"

text \<open>POST /api/clear-instances\<close>

definition post_clear_instances :: "server_state \<Rightarrow> server_state" where
  "post_clear_instances st =
     st\<lparr>fastInstances := [], instancesMap := Map.empty, cachedResponse := []\<rparr>"

text \<open>
  POST /api/game-tree-batch with body \<^verbatim>\<open>{instances, ...}\<close>, handled at time \<open>now\<close>.
  The envelope fields \<^verbatim>\<open>batchIndex\<close>, \<^verbatim>\<open>totalBatches\<close> and \<^verbatim>\<open>isLastBatch\<close> are only
  logged and echoed.
\<close>

definition post_game_tree_batch :: "GameInstance list \<Rightarrow> nat \<Rightarrow> server_state \<Rightarrow> server_state" where
  "post_game_tree_batch instances now st =
     (let pathSet = set (map path (fastInstances st));
          newInstances = filter (\<lambda>inst. path inst \<notin> pathSet) instances;
          st1 = (if length newInstances > 0
                 then st\<lparr>fastInstances := fastInstances st @ newInstances,
                         instancesMap := set_all newInstances (instancesMap st),
                         cachedResponse := fastInstances st @ newInstances\<rparr>
                 else st);
          conn = (fastConnection st1)\<lparr>isConnected := True, lastPing := Some now\<rparr>
      in st1\<lparr>fastConnection := conn, cachedConnectionResponse := conn,
              lastDataUpdate := now\<rparr>)"

text \<open>\<^verbatim>\<open>Array.prototype.findIndex\<close>: the first index whose element satisfies the
  predicate; \<open>None\<close> stands for \<open>-1\<close>.\<close>

fun findIndex :: "('a \<Rightarrow> bool) \<Rightarrow> 'a list \<Rightarrow> nat option" where
  "findIndex P [] = None"
| "findIndex P (x # xs) =
     (if P x then Some 0 else (case findIndex P xs of None \<Rightarrow> None | Some i \<Rightarrow> Some (Suc i)))"

text \<open>One round of the loop over \<^verbatim>\<open>modified\<close> in POST /api/incremental-update.\<close>

definition modify_one :: "GameInstance \<Rightarrow> server_state \<Rightarrow> server_state" where
  "modify_one modifiedInstance st =
     (if instancesMap st (path modifiedInstance) \<noteq> None
      then (let st1 = (case findIndex (\<lambda>inst. path inst = path modifiedInstance) (fastInstances st) of
                         Some index \<Rightarrow> st\<lparr>fastInstances := (fastInstances st)[index := modifiedInstance]\<rparr>
                       | None \<Rightarrow> st)
            in st1\<lparr>instancesMap := (instancesMap st1)(path modifiedInstance \<mapsto> modifiedInstance)\<rparr>)
      else st\<lparr>fastInstances := fastInstances st @ [modifiedInstance],
              instancesMap := (instancesMap st)(path modifiedInstance \<mapsto> modifiedInstance)\<rparr>)"

fun modify_all :: "GameInstance list \<Rightarrow> server_state \<Rightarrow> server_state" where
  "modify_all [] st = st"
| "modify_all (m # ms) st = modify_all ms (modify_one m st)"

text \<open>The filter callback of the \<^verbatim>\<open>removed\<close> branch deletes from the map the path
  of every list element it drops.\<close>

fun delete_removed :: "string set \<Rightarrow> GameInstance list \<Rightarrow> (string \<rightharpoonup> GameInstance) \<Rightarrow> (string \<rightharpoonup> GameInstance)" where
  "delete_removed removedSet [] m = m"
| "delete_removed removedSet (inst # xs) m =
     delete_removed removedSet xs (if path inst \<in> removedSet then m(path inst := None) else m)"

text \<open>
  A delta \<^verbatim>\<open>{added, modified, removed}\<close>: the body of POST /api/incremental-update and
  the \<^verbatim>\<open>changes\<close> table of the producer's \<^verbatim>\<open>detectChanges\<close>.
\<close>

record 'node delta =
  added :: "'node list"
  modified :: "'node list"
  removed :: "string list"

text \<open>
  POST /api/incremental-update with body \<^verbatim>\<open>{added, modified, removed}\<close>. The cached
  connection response is serialised before the connection record is refreshed, as in
  the source.
\<close>

definition post_incremental_update :: "GameInstance delta \<Rightarrow> nat \<Rightarrow> server_state \<Rightarrow> server_state" where
  "post_incremental_update body now st =
     (let st1 = (if length (added body) > 0
                 then st\<lparr>fastInstances := fastInstances st @ added body,
                         instancesMap := set_all (added body) (instancesMap st)\<rparr>
                 else st);
          st2 = (if length (modified body) > 0 then modify_all (modified body) st1 else st1);
          st3 = (if length (removed body) > 0
                 then (let removedSet = set (removed body)
                       in st2\<lparr>fastInstances := filter (\<lambda>inst. path inst \<notin> removedSet) (fastInstances st2),
                               instancesMap := delete_removed removedSet (fastInstances st2) (instancesMap st2)\<rparr>)
                 else st2);
          st4 = st3\<lparr>cachedResponse := fastInstances st3,
                    cachedConnectionResponse := fastConnection st3\<rparr>
      in st4\<lparr>fastConnection := (fastConnection st4)\<lparr>isConnected := True, lastPing := Some now\<rparr>,
              lastDataUpdate := now\<rparr>)"

text \<open>POST /api/ping: the fire-and-forget write of the connection row to the database
  touches no variable of the store.\<close>

definition post_ping :: "nat \<Rightarrow> server_state \<Rightarrow> server_state" where
  "post_ping now st =
     st\<lparr>fastConnection := (fastConnection st)\<lparr>lastPing := Some now, isConnected := True\<rparr>\<rparr>"

text \<open>The \<^verbatim>\<open>setInterval\<close> timeout checker, run at time \<open>now\<close>. JavaScript's
  \<^verbatim>\<open>Date.now() - lastPing\<close> is a signed difference.\<close>

definition timeout_checker :: "nat \<Rightarrow> server_state \<Rightarrow> server_state" where
  "timeout_checker now st =
     (case lastPing (fastConnection st) of
        None \<Rightarrow> st
      | Some t \<Rightarrow>
          (let timeSinceLastPing = int now - int t; timeoutMs = 30000
           in if timeSinceLastPing > timeoutMs \<and> isConnected (fastConnection st)
              then (let conn = (fastConnection st)\<lparr>isConnected := False, connectedAt := None,
                                                    lastPing := None\<rparr>
                    in st\<lparr>fastInstances := [], instancesMap := Map.empty,
                          fastConnection := conn, cachedResponse := [],
                          cachedConnectionResponse := conn\<rparr>)
              else st))"

text \<open>The ingestion operations of the in-memory store, and one step of the store.\<close>

datatype ingest_op =
    ApplyBatch "GameInstance list" nat
  | ApplyDelta "GameInstance delta" nat
  | Clear
  | TimeoutCheck nat
  | Heartbeat nat

fun step :: "ingest_op \<Rightarrow> server_state \<Rightarrow> server_state" where
  "step (ApplyBatch instances now) st = post_game_tree_batch instances now st"
| "step (ApplyDelta body now) st = post_incremental_update body now st"
| "step Clear st = post_clear_instances st"
| "step (TimeoutCheck now) st = timeout_checker now st"
| "step (Heartbeat now) st = post_ping now st"

definition store_consistent :: "server_state \<Rightarrow> bool" where
  "store_consistent st = (dom (instancesMap st) = set (map path (fastInstances st)))"

subsection \<open>The database behind server/storage.ts\<close>

text \<open>
  The \<^verbatim>\<open>game_instances\<close> table of shared/schema.ts has primary key \<^verbatim>\<open>id\<close> and a
  unique \<^verbatim>\<open>path\<close>. \<^verbatim>\<open>addInstance\<close> inserts with \<^verbatim>\<open>onConflictDoUpdate\<close> on the
  primary key: a row with the same id is overwritten, and a row that would repeat the
  path of another row is rejected with a unique violation.
\<close>

datatype db_error = UniqueViolation

record database =
  game_instances :: "GameInstance list"
  connection_status :: "ConnectionStatus option"

definition addInstance :: "GameInstance \<Rightarrow> GameInstance list \<Rightarrow> db_error + GameInstance list" where
  "addInstance instance rows =
     (if list_ex (\<lambda>r. inst_id r \<noteq> inst_id instance \<and> path r = path instance) rows
      then Inl UniqueViolation
      else if list_ex (\<lambda>r. inst_id r = inst_id instance) rows
      then Inr (map (\<lambda>r. if inst_id r = inst_id instance then instance else r) rows)
      else Inr (rows @ [instance]))"

text \<open>\<^verbatim>\<open>uniqueInstances\<close> of \<^verbatim>\<open>addInstancesBatch\<close>: a \<^verbatim>\<open>Map\<close> keyed by path, read back
  in insertion order.\<close>

definition uniqueInstancesList :: "GameInstance list \<Rightarrow> GameInstance list" where
  "uniqueInstancesList instances =
     map snd (fold (\<lambda>instance m. AList.update (path instance) instance m) instances [])"

text \<open>The chunks of 100 are processed in order, so the inserts run in list order; a
  failed insert is counted and skipped.\<close>

fun insert_each :: "GameInstance list \<Rightarrow> GameInstance list \<Rightarrow> GameInstance list" where
  "insert_each [] rows = rows"
| "insert_each (instance # rest) rows =
     (case addInstance instance rows of
        Inl error \<Rightarrow> insert_each rest rows
      | Inr rows' \<Rightarrow> insert_each rest rows')"

definition addInstancesBatch :: "GameInstance list \<Rightarrow> GameInstance list \<Rightarrow> GameInstance list" where
  "addInstancesBatch instances rows =
     (if length instances = 0 then rows else insert_each (uniqueInstancesList instances) rows)"

definition clearAllInstances :: "GameInstance list \<Rightarrow> GameInstance list" where
  "clearAllInstances rows = []"

text \<open>\<^verbatim>\<open>setConnectionStatus\<close> upserts the one row of the \<^verbatim>\<open>connection_status\<close> table.\<close>

definition setConnectionStatus :: "ConnectionStatus \<Rightarrow> database \<Rightarrow> database" where
  "setConnectionStatus status db = db\<lparr>connection_status := Some status\<rparr>"

text \<open>The write POST /api/ping starts on the database, with the connection record it has
  just refreshed.\<close>

definition ping_database :: "nat \<Rightarrow> server_state \<Rightarrow> database \<Rightarrow> database" where
  "ping_database now st db = setConnectionStatus (fastConnection (post_ping now st)) db"

text \<open>POST /api/game-tree: every effect is on the database; no variable of the
  in-memory store is assigned.\<close>

definition post_game_tree ::
  "GameInstance list \<Rightarrow> nat \<Rightarrow> server_state \<times> database \<Rightarrow> server_state \<times> database" where
  "post_game_tree instances now s =
     (let connectionStatus = \<lparr>conn_id = ''roblox-client'', isConnected = True,
                               connectedAt = Some now, lastPing = Some now, gameName = None,
                               placeId = None\<rparr>;
          db1 = setConnectionStatus connectionStatus (snd s);
          db2 = db1\<lparr>game_instances := clearAllInstances (game_instances db1)\<rparr>;
          db3 = db2\<lparr>game_instances := addInstancesBatch instances (game_instances db2)\<rparr>
      in (fst s, db3))"

definition empty_database :: database where
  "empty_database = \<lparr>game_instances = [], connection_status = None\<rparr>"


subsection \<open>Example nodes\<close>

definition node_a :: GameInstance where
  "node_a = \<lparr>inst_id = ''inst_1'', name = ''A'', className = ''Part'', path = ''game.A'',
     parent = Some ''game'', properties = [(''Anchored'', ''false'')], children = []\<rparr>"

definition node_a_new :: GameInstance where
  "node_a_new = \<lparr>inst_id = ''inst_2'', name = ''A'', className = ''Part'', path = ''game.A'',
     parent = Some ''game'', properties = [(''Anchored'', ''true'')], children = []\<rparr>"

definition node_b :: GameInstance where
  "node_b = \<lparr>inst_id = ''inst_3'', name = ''B'', className = ''Folder'', path = ''game.B'',
     parent = Some ''game'', properties = [], children = []\<rparr>"

section \<open>Producer (Lua clients)\<close>

text \<open>
  The table built by \<^verbatim>\<open>createInstanceData\<close>. On the producer side \<^verbatim>\<open>parent\<close> is always a
  string (the parent's name or the text \<^verbatim>\<open>nil\<close>). A property value is kept as the text
  \<^verbatim>\<open>tostring\<close> gives for it, and the property list is in the order in which \<^verbatim>\<open>pairs\<close>
  visits the table.
\<close>

record instanceData =
  l_id :: string
  l_name :: string
  l_className :: string
  l_path :: string
  l_parent :: string
  l_properties :: "(string \<times> string) list"
  l_children :: "string list"

subsection \<open>Change detection of the plain HTTP client\<close>

text \<open>
  A Lua table with string keys is an association list with distinct keys; \<^verbatim>\<open>t[k] = v\<close>
  is \<^const>\<open>AList.update\<close> and \<^verbatim>\<open>t[k]\<close> is \<^const>\<open>map_of\<close>. \<^verbatim>\<open>pairs\<close> visits a table
  in an order Lua leaves open; the model visits it in list order, and the properties
  below are about the sets of emitted nodes and paths, which no order changes.
\<close>

definition createHash :: "instanceData \<Rightarrow> string" where
  "createHash inst =
     fold (\<lambda>(k, v) h. h @ ''|'' @ k @ '':'' @ v) (l_properties inst)
       (l_name inst @ ''|'' @ l_className inst @ ''|'' @ l_parent inst)"

text \<open>\<^verbatim>\<open>for _, inst in ipairs(current) do t[inst.path] = f(inst) end\<close>\<close>

definition byPath :: "(instanceData \<Rightarrow> 'v) \<Rightarrow> instanceData list \<Rightarrow> (string \<times> 'v) list" where
  "byPath f current = fold (\<lambda>inst t. AList.update (l_path inst) (f inst) t) current []"

text \<open>The loop over \<^verbatim>\<open>currByPath\<close>. A missing \<^verbatim>\<open>currHashes[path]\<close> would be \<^verbatim>\<open>nil\<close>,
  which differs from every stored hash.\<close>

fun classify ::
  "(string \<times> string) list \<Rightarrow> (string \<times> string) list \<Rightarrow> (string \<times> instanceData) list \<Rightarrow>
   instanceData delta \<Rightarrow> instanceData delta" where
  "classify previousInstances currHashes [] changes = changes"
| "classify previousInstances currHashes ((p, inst) # rest) changes =
     classify previousInstances currHashes rest
       (case map_of previousInstances p of
          None \<Rightarrow> changes\<lparr>added := added changes @ [inst]\<rparr>
        | Some prevHash \<Rightarrow>
            if map_of currHashes p \<noteq> Some prevHash
            then changes\<lparr>modified := modified changes @ [inst]\<rparr>
            else changes)"

text \<open>The loop over \<^verbatim>\<open>previousInstances\<close>.\<close>

fun collect_removed ::
  "(string \<times> 'v) list \<Rightarrow> (string \<times> instanceData) list \<Rightarrow> instanceData delta \<Rightarrow> instanceData delta" where
  "collect_removed [] currByPath changes = changes"
| "collect_removed ((p, _) # rest) currByPath changes =
     collect_removed rest currByPath
       (if map_of currByPath p = None then changes\<lparr>removed := removed changes @ [p]\<rparr>
        else changes)"

definition detectChanges :: "(string \<times> string) list \<Rightarrow> instanceData list \<Rightarrow> instanceData delta" where
  "detectChanges previousInstances current =
     (let currByPath = byPath (\<lambda>inst. inst) current;
          currHashes = byPath createHash current
      in collect_removed previousInstances currByPath
           (classify previousInstances currHashes currByPath
              \<lparr>added = [], modified = [], removed = []\<rparr>))"

subsection \<open>Change detection of roblox-incremental-http-client.lua\<close>

text \<open>There the previous table stores the instances themselves, and the hash is a
  number; \<^verbatim>\<open>string.byte\<close> is \<^const>\<open>of_char\<close>. The products stay below \<open>2^53\<close>, so the
  floating-point arithmetic of Lua is exact.\<close>

definition createHash_inc :: "instanceData \<Rightarrow> nat" where
  "createHash_inc instanceData =
     (let hashString =
            fold (\<lambda>(k, v) h. if k \<noteq> ''Name'' \<and> k \<noteq> ''ClassName'' \<and> k \<noteq> ''Parent''
                              then h @ ''|'' @ k @ '':'' @ v else h)
              (l_properties instanceData)
              (l_name instanceData @ ''|'' @ l_className instanceData @ ''|'' @ l_parent instanceData)
      in fold (\<lambda>c hash. (hash * 31 + of_char c) mod 2147483647) hashString 0)"

definition instancesAreEqual :: "instanceData option \<Rightarrow> instanceData option \<Rightarrow> bool" where
  "instancesAreEqual inst1 inst2 =
     (case (inst1, inst2) of
        (Some a, Some b) \<Rightarrow> createHash_inc a = createHash_inc b
      | _ \<Rightarrow> False)"

fun classify_inc ::
  "(string \<times> instanceData) list \<Rightarrow> (string \<times> instanceData) list \<Rightarrow>
   instanceData delta \<Rightarrow> instanceData delta" where
  "classify_inc previousInstances [] changes = changes"
| "classify_inc previousInstances ((p, currentInst) # rest) changes =
     classify_inc previousInstances rest
       (case map_of previousInstances p of
          None \<Rightarrow> changes\<lparr>added := added changes @ [currentInst]\<rparr>
        | Some previousInst \<Rightarrow>
            if \<not> instancesAreEqual (Some currentInst) (Some previousInst)
            then changes\<lparr>modified := modified changes @ [currentInst]\<rparr>
            else changes)"

definition detectChanges_inc ::
  "(string \<times> instanceData) list \<Rightarrow> instanceData list \<Rightarrow> instanceData delta" where
  "detectChanges_inc previousInstances currentInstances =
     (let currentByPath = byPath (\<lambda>inst. inst) currentInstances
      in collect_removed previousInstances currentByPath
           (classify_inc previousInstances currentByPath
              \<lparr>added = [], modified = [], removed = []\<rparr>))"

text \<open>The node a snapshot holds at a path: the last one, when the path is repeated.\<close>

definition lastAt :: "instanceData list \<Rightarrow> string \<Rightarrow> instanceData option" where
  "lastAt current p = find (\<lambda>inst. l_path inst = p) (rev current)"

subsection \<open>Batch dispatch and the update cycle\<close>

datatype request =
    PingRequest
  | GameTreeBatch "instanceData list" nat nat bool
  | IncrementalUpdate "instanceData list" "instanceData list" "string list"

text \<open>\<^verbatim>\<open>math.ceil(n / b)\<close> for a count \<open>n\<close> and a positive batch size \<open>b\<close>.\<close>

definition ceil_div :: "nat \<Rightarrow> nat \<Rightarrow> nat" where
  "ceil_div n b = (if n mod b = 0 then n div b else n div b + 1)"

definition sendGameTreeBatch :: "instanceData list \<Rightarrow> nat \<Rightarrow> nat \<Rightarrow> request" where
  "sendGameTreeBatch instances batchIndex totalBatches =
     GameTreeBatch instances batchIndex totalBatches (int batchIndex = int totalBatches - 1)"

text \<open>
  The batch loop of the initial sync, with the batch size as a parameter. Lua indexes
  from 1; both clients copy the elements \<^verbatim>\<open>startIdx .. endIdx\<close> (one by a loop, one by
  \<^verbatim>\<open>table.unpack\<close>), which never reads outside the list. The result lists the requests
  in the order they are issued.
\<close>

definition initial_sync_batches :: "nat \<Rightarrow> instanceData list \<Rightarrow> request list" where
  "initial_sync_batches batchSize currentInstances =
     (let totalBatches = ceil_div (length currentInstances) batchSize
      in map (\<lambda>batchIndex.
            let startIdx = batchIndex * batchSize + 1;
                endIdx = min ((batchIndex + 1) * batchSize) (length currentInstances);
                batchInstances = map (\<lambda>i. currentInstances ! (i - 1)) [startIdx ..< endIdx + 1]
            in sendGameTreeBatch batchInstances batchIndex totalBatches)
          [0 ..< totalBatches])"

fun batch_instances :: "request \<Rightarrow> instanceData list" where
  "batch_instances (GameTreeBatch instances _ _ _) = instances"
| "batch_instances _ = []"

fun batch_index :: "request \<Rightarrow> nat option" where
  "batch_index (GameTreeBatch _ batchIndex _ _) = Some batchIndex"
| "batch_index _ = None"

fun batch_isLast :: "request \<Rightarrow> bool" where
  "batch_isLast (GameTreeBatch _ _ _ isLastBatch) = isLastBatch"
| "batch_isLast _ = False"

text \<open>The state of the plain HTTP client, and one call of \<^verbatim>\<open>sendUpdates\<close> on the
  snapshot \<^verbatim>\<open>collectCurrentGameData\<close> returned; the result carries the requests sent.\<close>

definition BATCH_SIZE :: nat where
  "BATCH_SIZE = 1000"

record client_state =
  isSending :: bool
  isFirstSync :: bool
  previousInstances :: "(string \<times> string) list"

definition sendUpdates :: "instanceData list \<Rightarrow> client_state \<Rightarrow> client_state \<times> request list" where
  "sendUpdates current st =
     (if isSending st then (st, [])
      else
        (let (sent, first) =
               (if isFirstSync st
                then (PingRequest # initial_sync_batches BATCH_SIZE current, False)
                else (let changes = detectChanges (previousInstances st) current
                      in (if length (added changes) + length (modified changes) + length (removed changes) > 0
                          then [IncrementalUpdate (added changes) (modified changes) (removed changes)]
                          else [], isFirstSync st)))
         in (st\<lparr>isSending := False, isFirstSync := first,
                 previousInstances := byPath createHash current\<rparr>, sent)))"

subsection \<open>Example snapshot\<close>

definition part_x :: instanceData where
  "part_x = \<lparr>l_id = ''inst_1'', l_name = ''X'', l_className = ''Part'', l_path = ''game.X'',
     l_parent = ''game'', l_properties = [(''Anchored'', ''true'')], l_children = []\<rparr>"

definition part_y :: instanceData where
  "part_y = \<lparr>l_id = ''inst_2'', l_name = ''Y'', l_className = ''Part'', l_path = ''game.Y'',
     l_parent = ''game'', l_properties = [], l_children = []\<rparr>"

definition part_z :: instanceData where
  "part_z = \<lparr>l_id = ''inst_3'', l_name = ''Z'', l_className = ''Part'', l_path = ''game.Z'',
     l_parent = ''game'', l_properties = [], l_children = []\<rparr>"

section \<open>Tree reconciler (client/src/components/status-bar.tsx, treeData)\<close>










































subsection \<open>Example collections\<close>





section \<open>Tables filled in insertion order\<close>

text \<open>Both the JavaScript \<^verbatim>\<open>Map\<close> and the Lua tables of the model are association lists
  filled by \<^const>\<open>AList.update\<close>: a key keeps its first position and its last value.\<close>

lemma find_append:
  "find P (xs @ ys) = (case find P xs of None \<Rightarrow> find P ys | Some x \<Rightarrow> Some x)"
  by (induction xs) auto

lemma find_SomeD: "find P xs = Some x \<Longrightarrow> x \<in> set xs \<and> P x"
  by (induction xs) (auto split: if_splits)

lemma map_of_fold_update:
  "map_of (fold (\<lambda>x t. AList.update (key x) (f x) t) xs acc) p =
     (case find (\<lambda>x. key x = p) (rev xs) of None \<Rightarrow> map_of acc p | Some x \<Rightarrow> Some (f x))"
  by (induction xs arbitrary: acc)
     (auto simp: find_append update_conv' split: option.splits)

lemma keys_fold_update:
  "fst ` set (fold (\<lambda>x t. AList.update (key x) (f x) t) xs acc) = fst ` set acc \<union> key ` set xs"
  by (induction xs arbitrary: acc) (auto simp: dom_update)

lemma distinct_fold_update:
  "distinct (map fst acc) \<Longrightarrow>
   distinct (map fst (fold (\<lambda>x t. AList.update (key x) (f x) t) xs acc))"
  by (induction xs arbitrary: acc) (auto simp: distinct_update)

section \<open>Properties of the ingestion store\<close>

subsection \<open>The two stores name the same paths\<close>

lemma dom_set_all: "dom (set_all xs m) = dom m \<union> set (map path xs)"
  by (induction xs arbitrary: m) auto


lemma findIndex_Some: "findIndex P xs = Some i \<Longrightarrow> i < length xs \<and> P (xs ! i)"
  by (induction xs arbitrary: i) (auto split: if_splits option.splits)

lemma paths_list_update:
  "i < length xs \<Longrightarrow> path (xs ! i) = path v \<Longrightarrow> map path (xs[i := v]) = map path xs"
  by (simp add: map_update list_update_same_conv)

lemma path_set_list_update:
  assumes "i < length xs" and "path (xs ! i) = path v"
  shows "path ` set (xs[i := v]) = path ` set xs"
proof -
  have "set (map path (xs[i := v])) = set (map path xs)"
    using assms by (simp only: paths_list_update)
  then show ?thesis by simp
qed

lemma modify_one_paths:
  "instancesMap st (path m) \<noteq> None \<Longrightarrow>
   path ` set (fastInstances (modify_one m st)) = path ` set (fastInstances st)"
  by (cases "findIndex (\<lambda>inst. path inst = path m) (fastInstances st)")
     (auto simp: modify_one_def dest!: findIndex_Some intro!: path_set_list_update)

lemma modify_one_dom:
  "dom (instancesMap (modify_one m st)) = insert (path m) (dom (instancesMap st))"
  by (cases "findIndex (\<lambda>inst. path inst = path m) (fastInstances st)")
     (auto simp: modify_one_def)

lemma modify_one_consistent:
  assumes "store_consistent st"
  shows "store_consistent (modify_one m st)"
proof (cases "instancesMap st (path m) = None")
  case True
  with assms show ?thesis
    by (auto simp: store_consistent_def modify_one_def)
next
  case False
  then have "path m \<in> dom (instancesMap st)" by auto
  then have d: "insert (path m) (dom (instancesMap st)) = dom (instancesMap st)" by auto
  have a: "path ` set (fastInstances (modify_one m st)) = path ` set (fastInstances st)"
    using False by (rule modify_one_paths)
  have c: "dom (instancesMap st) = path ` set (fastInstances st)"
    using assms by (simp add: store_consistent_def)
  show ?thesis
    unfolding store_consistent_def set_map a modify_one_dom d by (rule c)
qed

lemma modify_all_consistent: "store_consistent st \<Longrightarrow> store_consistent (modify_all ms st)"
  by (induction ms arbitrary: st) (auto simp: modify_one_consistent)

lemma dom_delete_removed:
  "dom (delete_removed R xs m) = dom m - (R \<inter> set (map path xs))"
  by (induction xs arbitrary: m) auto

lemma batch_consistent: "store_consistent st \<Longrightarrow> store_consistent (post_game_tree_batch xs now st)"
  by (auto simp: store_consistent_def post_game_tree_batch_def Let_def dom_set_all)

lemma delta_consistent:
  assumes "store_consistent st"
  shows "store_consistent (post_incremental_update body now st)"
proof -
  let ?st1 = "if length (added body) > 0
                 then st\<lparr>fastInstances := fastInstances st @ added body,
                         instancesMap := set_all (added body) (instancesMap st)\<rparr>
                 else st"
  have 1: "store_consistent ?st1"
    using assms by (auto simp: store_consistent_def dom_set_all)
  let ?st2 = "if length (modified body) > 0 then modify_all (modified body) ?st1 else ?st1"
  have 2: "store_consistent ?st2"
    using 1 modify_all_consistent by presburger
  then show ?thesis
    unfolding post_incremental_update_def Let_def
    by (auto simp: store_consistent_def dom_delete_removed)
qed

lemma step_consistent: "store_consistent st \<Longrightarrow> store_consistent (step op st)"
  by (cases op) (auto simp: batch_consistent delta_consistent,
      auto simp: store_consistent_def post_clear_instances_def timeout_checker_def post_ping_def Let_def split: option.splits)

lemma fold_step_consistent: "store_consistent st \<Longrightarrow> store_consistent (fold step ops st)"
  by (induction ops arbitrary: st) (auto simp: step_consistent)

text \<open>
  C10. In every state the store reaches from the empty initial state by batches, deltas,
  clears, timeout checks and heartbeats, a path is a key of \<^verbatim>\<open>instancesMap\<close> exactly
  when some element of \<^verbatim>\<open>fastInstances\<close> has that path.
\<close>

theorem store_consistent_reachable:
  "dom (instancesMap (fold step ops initial_state)) =
     set (map path (fastInstances (fold step ops initial_state)))"
proof -
  have "store_consistent initial_state"
    by (simp add: store_consistent_def initial_state_def)
  then have "store_consistent (fold step ops initial_state)"
    by (rule fold_step_consistent)
  then show ?thesis by (simp only: store_consistent_def)
qed

theorem store_consistent_reachable_witness:
  "dom (instancesMap (fold step [ApplyBatch [node_a, node_b] 10,
          ApplyDelta \<lparr>added = [], modified = [node_a_new], removed = [''game.B'']\<rparr> 20] initial_state)) =
     set (map path (fastInstances (fold step [ApplyBatch [node_a, node_b] 10,
          ApplyDelta \<lparr>added = [], modified = [node_a_new], removed = [''game.B'']\<rparr> 20] initial_state)))"
  by (rule store_consistent_reachable)

text \<open>
  C9. Handling a heartbeat sets the last-seen time and the connected flag and leaves the
  node list, the lookup map and the cached listing as they were; the row it writes to the
  database is the connection row, and the stored nodes of the database stay as they were.
\<close>

theorem heartbeat_keeps_nodes:
  "fastInstances (post_ping now st) = fastInstances st \<and>
   instancesMap (post_ping now st) = instancesMap st \<and>
   get_instances (post_ping now st) = get_instances st \<and>
   game_instances (ping_database now st db) = game_instances db \<and>
   lastPing (fastConnection (post_ping now st)) = Some now \<and>
   isConnected (fastConnection (post_ping now st))"
  by (simp add: post_ping_def get_instances_def ping_database_def setConnectionStatus_def)

text \<open>
  C1. The \<^verbatim>\<open>added\<close> branch appends without looking the path up: a node added at a
  path the store already holds leaves the old node in the list and in the listing, next
  to the new one, while the lookup map holds the new node only.
\<close>

theorem added_duplicates_existing_path:
  "get_instances (post_incremental_update \<lparr>added = [node_a_new], modified = [], removed = []\<rparr> 20
      (post_game_tree_batch [node_a] 10 initial_state)) = [node_a, node_a_new] \<and>
   instancesMap (post_incremental_update \<lparr>added = [node_a_new], modified = [], removed = []\<rparr> 20
      (post_game_tree_batch [node_a] 10 initial_state)) ''game.A'' = Some node_a_new \<and>
   path node_a = ''game.A'' \<and> path node_a_new = ''game.A'' \<and> node_a \<noteq> node_a_new"
  by (simp add: post_incremental_update_def post_game_tree_batch_def initial_state_def
      get_instances_def node_a_def node_a_new_def Let_def)

text \<open>
  C7. POST /api/game-tree writes the snapshot to the database only, so the listing served by
  GET /api/instances is what it was before the snapshot.
\<close>

theorem snapshot_not_listed:
  "get_instances (fst (post_game_tree [node_a, node_b] 10 (initial_state, empty_database))) = [] \<and>
   game_instances (snd (post_game_tree [node_a, node_b] 10 (initial_state, empty_database))) = [node_a, node_b]"
  by (simp add: post_game_tree_def get_instances_def initial_state_def empty_database_def Let_def
      addInstancesBatch_def uniqueInstancesList_def clearAllInstances_def addInstance_def
      setConnectionStatus_def node_a_def node_b_def)

lemma post_game_tree_memory: "fst (post_game_tree instances now s) = fst s"
  by (simp add: post_game_tree_def Let_def)


subsection \<open>Batches\<close>










section \<open>Properties of the producer\<close>

subsection \<open>Tables indexed by path\<close>

lemma map_of_byPath: "map_of (byPath f current) p = map_option f (lastAt current p)"
  by (simp add: byPath_def lastAt_def map_of_fold_update split: option.splits)

lemma keys_byPath: "fst ` set (byPath f current) = l_path ` set current"
  by (simp add: byPath_def keys_fold_update)

lemma distinct_byPath: "distinct (map fst (byPath f current))"
  by (simp add: byPath_def distinct_fold_update)

lemma lastAt_None: "lastAt current p = None \<longleftrightarrow> p \<notin> l_path ` set current"
  by (auto simp: lastAt_def find_None_iff)

lemma lastAt_Some: "lastAt current p = Some inst \<Longrightarrow> inst \<in> set current \<and> l_path inst = p"
  using find_SomeD [of "\<lambda>inst. l_path inst = p" "rev current" inst] by (simp add: lastAt_def)

subsection \<open>Change detection\<close>

lemma classify_removed: "removed (classify pv ch es c) = removed c"
  by (induction es arbitrary: c) (auto split: option.splits)

lemma classify_added:
  "added (classify pv ch es c) =
     added c @ map snd (filter (\<lambda>(p, inst). map_of pv p = None) es)"
  by (induction es arbitrary: c) (auto split: option.splits)

lemma classify_modified:
  "modified (classify pv ch es c) =
     modified c @ map snd (filter (\<lambda>(p, inst). \<exists>h. map_of pv p = Some h \<and> map_of ch p \<noteq> Some h) es)"
  by (induction es arbitrary: c) (auto split: option.splits)

lemma collect_removed_added: "added (collect_removed pv cb c) = added c"
  by (induction pv cb c rule: collect_removed.induct) auto

lemma collect_removed_modified: "modified (collect_removed pv cb c) = modified c"
  by (induction pv cb c rule: collect_removed.induct) auto

lemma collect_removed_removed:
  "removed (collect_removed pv cb c) = removed c @ filter (\<lambda>p. map_of cb p = None) (map fst pv)"
  by (induction pv cb c rule: collect_removed.induct) auto

lemma detect_added:
  "added (detectChanges pv cur) =
     map snd (filter (\<lambda>(p, inst). map_of pv p = None) (byPath (\<lambda>inst. inst) cur))"
  by (simp add: detectChanges_def Let_def collect_removed_added classify_added)

lemma detect_modified:
  "modified (detectChanges pv cur) =
     map snd (filter (\<lambda>(p, inst). \<exists>h. map_of pv p = Some h \<and> map_of (byPath createHash cur) p \<noteq> Some h)
                (byPath (\<lambda>inst. inst) cur))"
  by (simp add: detectChanges_def Let_def collect_removed_modified classify_modified)

lemma detect_removed:
  "removed (detectChanges pv cur) =
     filter (\<lambda>p. map_of (byPath (\<lambda>inst. inst) cur) p = None) (map fst pv)"
  by (simp add: detectChanges_def Let_def collect_removed_removed classify_removed)

lemma byPath_entry:
  "(p, inst) \<in> set (byPath (\<lambda>inst. inst) cur) \<longleftrightarrow> lastAt cur p = Some inst"
proof -
  have "(p, inst) \<in> set (byPath (\<lambda>inst. inst) cur) \<longleftrightarrow> map_of (byPath (\<lambda>inst. inst) cur) p = Some inst"
    using distinct_byPath by (metis map_of_eq_Some_iff)
  then show ?thesis by (simp add: map_of_byPath option.map_ident)
qed

lemma set_detect_added:
  "set (added (detectChanges pv cur)) =
     {inst. lastAt cur (l_path inst) = Some inst \<and> l_path inst \<notin> fst ` set pv}"
proof -
  have "inst \<in> set (added (detectChanges pv cur)) \<longleftrightarrow>
        (\<exists>p. lastAt cur p = Some inst \<and> map_of pv p = None)" for inst
    by (force simp: detect_added byPath_entry)
  moreover have "(\<exists>p. lastAt cur p = Some inst \<and> map_of pv p = None) \<longleftrightarrow>
        lastAt cur (l_path inst) = Some inst \<and> l_path inst \<notin> fst ` set pv" for inst
    using lastAt_Some by (metis map_of_eq_None_iff)
  ultimately show ?thesis by blast
qed

lemma set_detect_modified:
  "set (modified (detectChanges pv cur)) =
     {inst. lastAt cur (l_path inst) = Some inst \<and>
            (\<exists>h. map_of pv (l_path inst) = Some h \<and> createHash inst \<noteq> h)}"
proof -
  have "inst \<in> set (modified (detectChanges pv cur)) \<longleftrightarrow>
        (\<exists>p. lastAt cur p = Some inst \<and> (\<exists>h. map_of pv p = Some h \<and> createHash inst \<noteq> h))" for inst
    by (force simp: detect_modified byPath_entry map_of_byPath)
  moreover have "(\<exists>p. lastAt cur p = Some inst \<and> (\<exists>h. map_of pv p = Some h \<and> createHash inst \<noteq> h)) \<longleftrightarrow>
        lastAt cur (l_path inst) = Some inst \<and>
            (\<exists>h. map_of pv (l_path inst) = Some h \<and> createHash inst \<noteq> h)" for inst
    using lastAt_Some by blast
  ultimately show ?thesis by blast
qed

lemma set_detect_removed:
  "set (removed (detectChanges pv cur)) = {p \<in> fst ` set pv. p \<notin> l_path ` set cur}"
  by (auto simp: detect_removed map_of_byPath lastAt_None)



subsection \<open>Batch dispatch\<close>

lemma ceil_div_int: "0 < b \<Longrightarrow> - (- int n div int b) = int (ceil_div n b)"
proof -
  assume b: "0 < b"
  have m: "(int n mod int b = 0) = (n mod b = 0)"
    by (metis of_nat_eq_0_iff zmod_int)
  have d: "int n div int b = int (n div b)"
    by (simp add: zdiv_int)
  from b have "- int n div int b = (if int n mod int b = 0 then - (int n div int b) else - (int n div int b) - 1)"
    by (simp add: zdiv_zminus1_eq_if)
  then show ?thesis
    by (simp add: ceil_div_def m d)
qed

lemma ceil_div_ceiling: "0 < b \<Longrightarrow> int (ceil_div n b) = \<lceil>real n / real b\<rceil>"
  using ceiling_divide_eq_div [where 'a = real, of "int n" "int b"] ceil_div_int [of b n] by simp

lemma ceil_div_covers: "0 < b \<Longrightarrow> n \<le> ceil_div n b * b"
proof -
  assume b: "0 < b"
  have e: "n div b * b + n mod b = n" by simp
  have l: "n mod b < b" using b by simp
  show ?thesis
  proof (cases "n mod b = 0")
    case True
    with e show ?thesis by (simp add: ceil_div_def)
  next
    case False
    have "n < n div b * b + b" using e l by linarith
    with False show ?thesis by (simp add: ceil_div_def)
  qed
qed

lemma ceil_div_pos: "0 < b \<Longrightarrow> 0 < n \<Longrightarrow> 0 < ceil_div n b"
  using ceil_div_covers [of b n] by (cases "ceil_div n b") auto

lemma slice_take_drop:
  "e \<le> length xs \<Longrightarrow> map (\<lambda>i. xs ! (i - 1)) [s + 1 ..< e + 1] = take (e - s) (drop s xs)"
  by (rule nth_equalityI) (auto simp del: upt_Suc)

lemma batch_slice:
  "map (\<lambda>i. xs ! (i - 1)) [k * b + 1 ..< min ((k + 1) * b) (length xs) + 1] = take b (drop (k * b) xs)"
proof -
  let ?e = "min ((k + 1) * b) (length xs)"
  have "map (\<lambda>i. xs ! (i - 1)) [k * b + 1 ..< ?e + 1] = take (?e - k * b) (drop (k * b) xs)"
    by (rule slice_take_drop) simp
  also have "\<dots> = take b (drop (k * b) xs)"
    by (rule nth_equalityI) (auto simp: min_def algebra_simps)
  finally show ?thesis .
qed

lemma concat_chunks: "concat (map (\<lambda>k. take b (drop (k * b) xs)) [0 ..< t]) = take (t * b) xs"
proof (induction t)
  case 0
  then show ?case by simp
next
  case (Suc t)
  have "take (t * b + b) xs = take (t * b) xs @ take b (drop (t * b) xs)"
    by (rule take_add)
  with Suc show ?case by (simp add: add.commute)
qed

lemma batches_alt:
  "initial_sync_batches b xs =
     map (\<lambda>k. GameTreeBatch (take b (drop (k * b) xs)) k (ceil_div (length xs) b)
                 (int k = int (ceil_div (length xs) b) - 1))
       [0 ..< ceil_div (length xs) b]"
  unfolding initial_sync_batches_def Let_def sendGameTreeBatch_def
  by (simp only: batch_slice)

lemma dispatch_parts:
  assumes "1 \<le> length xs" and "0 < b"
  shows "length (initial_sync_batches b xs) = ceil_div (length xs) b"
    and "int (ceil_div (length xs) b) = \<lceil>real (length xs) / real b\<rceil>"
    and "map batch_index (initial_sync_batches b xs) = map Some [0 ..< ceil_div (length xs) b]"
    and "concat (map batch_instances (initial_sync_batches b xs)) = xs"
    and "map batch_isLast (initial_sync_batches b xs) =
           replicate (ceil_div (length xs) b - 1) False @ [True]"
proof -
  let ?t = "ceil_div (length xs) b"
  show "length (initial_sync_batches b xs) = ?t" by (simp add: batches_alt)
  show "int ?t = \<lceil>real (length xs) / real b\<rceil>" using assms(2) by (rule ceil_div_ceiling)
  show "map batch_index (initial_sync_batches b xs) = map Some [0 ..< ?t]"
    by (simp add: batches_alt comp_def)
  have "concat (map batch_instances (initial_sync_batches b xs)) = take (?t * b) xs"
    by (simp add: batches_alt comp_def concat_chunks)
  then show "concat (map batch_instances (initial_sync_batches b xs)) = xs"
    using ceil_div_covers [OF assms(2), of "length xs"] by simp
  have "0 < ?t" using assms ceil_div_pos [of b "length xs"] by (cases xs) auto
  then obtain t' where t': "?t = Suc t'" by (cases ?t) auto
  have "map batch_isLast (initial_sync_batches b xs) = map (\<lambda>k. k = t') [0 ..< Suc t']"
    by (auto simp: batches_alt comp_def t')
  also have "\<dots> = replicate t' False @ [True]"
    by (auto simp: map_replicate_trivial [symmetric] simp del: map_replicate_trivial replicate_Suc intro!: nth_equalityI)
  finally show "map batch_isLast (initial_sync_batches b xs) = replicate (?t - 1) False @ [True]"
    by (simp add: t')
qed


subsection \<open>The update cycle\<close>

lemma changes_eqI:
  "added c = a \<Longrightarrow> modified c = m \<Longrightarrow> removed c = r \<Longrightarrow>
   (c::instanceData delta) = \<lparr>added = a, modified = m, removed = r\<rparr>"
  by (cases c) simp

lemma detect_unchanged:
  "detectChanges (byPath createHash cur) cur = \<lparr>added = [], modified = [], removed = []\<rparr>"
proof (rule changes_eqI)
  have k: "map_of (byPath createHash cur) p \<noteq> None" if "(p, inst) \<in> set (byPath (\<lambda>inst. inst) cur)" for p inst
    using that by (simp add: byPath_entry map_of_byPath)
  show "added (detectChanges (byPath createHash cur) cur) = []"
    using k by (auto simp: detect_added filter_empty_conv)
  show "modified (detectChanges (byPath createHash cur) cur) = []"
    unfolding detect_modified by simp
  have "map_of (byPath (\<lambda>inst. inst) cur) p \<noteq> None" if "p \<in> fst ` set (byPath createHash cur)" for p
    using that by (simp add: keys_byPath map_of_byPath lastAt_None)
  then show "removed (detectChanges (byPath createHash cur) cur) = []"
    by (auto simp: detect_removed filter_empty_conv)
qed

lemma cycle_parts:
  assumes "\<not> isSending st"
  shows "previousInstances (fst (sendUpdates cur st)) = byPath createHash cur"
    and "\<not> isSending (fst (sendUpdates cur st))"
    and "\<not> isFirstSync (fst (sendUpdates cur st))"
    and "detectChanges (previousInstances (fst (sendUpdates cur st))) cur =
           \<lparr>added = [], modified = [], removed = []\<rparr>"
    and "snd (sendUpdates cur (fst (sendUpdates cur st))) = []"
    and "snd (sendUpdates cur (fst (sendUpdates cur (fst (sendUpdates cur st))))) = []"
proof -
  let ?s1 = "fst (sendUpdates cur st)"
  show p1: "previousInstances ?s1 = byPath createHash cur"
    using assms by (simp add: sendUpdates_def Let_def split: prod.splits)
  show s1: "\<not> isSending ?s1"
    using assms by (simp add: sendUpdates_def Let_def split: prod.splits)
  show f1: "\<not> isFirstSync ?s1"
    using assms by (auto simp: sendUpdates_def Let_def split: prod.splits if_splits)
  show "detectChanges (previousInstances ?s1) cur = \<lparr>added = [], modified = [], removed = []\<rparr>"
    by (simp only: p1 detect_unchanged)
  have quiet: "snd (sendUpdates cur s) = [] \<and> previousInstances (fst (sendUpdates cur s)) = byPath createHash cur
      \<and> \<not> isSending (fst (sendUpdates cur s)) \<and> \<not> isFirstSync (fst (sendUpdates cur s))"
    if "previousInstances s = byPath createHash cur" "\<not> isSending s" "\<not> isFirstSync s" for s
    using that by (simp add: sendUpdates_def Let_def detect_unchanged)
  show "snd (sendUpdates cur ?s1) = []"
    using quiet [OF p1 s1 f1] by simp
  show "snd (sendUpdates cur (fst (sendUpdates cur ?s1))) = []"
    using quiet [OF p1 s1 f1] quiet by simp
qed

lemma classify_parts:
  fixes pv cur
  defines "d \<equiv> detectChanges pv cur"
  shows "l_path ` set (added d) = {p \<in> l_path ` set cur. p \<notin> fst ` set pv}"
    and "l_path ` set (modified d) =
           {p \<in> l_path ` set cur. \<exists>h. map_of pv p = Some h \<and> map_option createHash (lastAt cur p) \<noteq> Some h}"
    and "set (removed d) = {p \<in> fst ` set pv. p \<notin> l_path ` set cur}"
    and "\<forall>inst \<in> set (added d) \<union> set (modified d). lastAt cur (l_path inst) = Some inst"
    and "l_path ` set (added d) \<inter> l_path ` set (modified d) = {}"
    and "l_path ` set (added d) \<inter> set (removed d) = {}"
    and "l_path ` set (modified d) \<inter> set (removed d) = {}"
proof -
  have ex: "\<exists>inst. lastAt cur p = Some inst \<and> l_path inst = p" if "p \<in> l_path ` set cur" for p
  proof -
    from that have "lastAt cur p \<noteq> None" by (simp add: lastAt_None)
    then obtain inst where "lastAt cur p = Some inst" by auto
    then show ?thesis using lastAt_Some by blast
  qed
  have mem: "lastAt cur p = Some inst \<Longrightarrow> p \<in> l_path ` set cur" for p inst
    using lastAt_Some by blast
  show a: "l_path ` set (added d) = {p \<in> l_path ` set cur. p \<notin> fst ` set pv}"
  proof (rule set_eqI)
    fix p
    have "p \<in> l_path ` set (added d) \<longleftrightarrow> (\<exists>inst. lastAt cur p = Some inst \<and> l_path inst = p \<and> p \<notin> fst ` set pv)"
      unfolding d_def set_detect_added by blast
    also have "\<dots> \<longleftrightarrow> p \<in> l_path ` set cur \<and> p \<notin> fst ` set pv"
      using ex [of p] mem [of p] by blast
    finally show "p \<in> l_path ` set (added d) \<longleftrightarrow> p \<in> {p \<in> l_path ` set cur. p \<notin> fst ` set pv}"
      by simp
  qed
  show m: "l_path ` set (modified d) =
           {p \<in> l_path ` set cur. \<exists>h. map_of pv p = Some h \<and> map_option createHash (lastAt cur p) \<noteq> Some h}"
  proof (rule set_eqI)
    fix p
    have "p \<in> l_path ` set (modified d) \<longleftrightarrow>
          (\<exists>inst. lastAt cur p = Some inst \<and> l_path inst = p \<and> (\<exists>h. map_of pv p = Some h \<and> createHash inst \<noteq> h))"
      unfolding d_def set_detect_modified by blast
    also have "\<dots> \<longleftrightarrow> p \<in> l_path ` set cur \<and> (\<exists>h. map_of pv p = Some h \<and> map_option createHash (lastAt cur p) \<noteq> Some h)"
      using ex [of p] mem [of p] by (cases "lastAt cur p") auto
    finally show "p \<in> l_path ` set (modified d) \<longleftrightarrow>
        p \<in> {p \<in> l_path ` set cur. \<exists>h. map_of pv p = Some h \<and> map_option createHash (lastAt cur p) \<noteq> Some h}"
      by simp
  qed
  show r: "set (removed d) = {p \<in> fst ` set pv. p \<notin> l_path ` set cur}"
    unfolding d_def by (rule set_detect_removed)
  show "\<forall>inst \<in> set (added d) \<union> set (modified d). lastAt cur (l_path inst) = Some inst"
    unfolding d_def set_detect_added set_detect_modified by auto
  show "l_path ` set (added d) \<inter> l_path ` set (modified d) = {}"
    unfolding a m by (auto simp: map_of_eq_None_iff [symmetric])
  show "l_path ` set (added d) \<inter> set (removed d) = {}"
    unfolding a r by auto
  show "l_path ` set (modified d) \<inter> set (removed d) = {}"
    unfolding m r by auto
qed

lemma classify_inc_removed: "removed (classify_inc pv es c) = removed c"
  by (induction es arbitrary: c) (auto split: option.splits)

lemma classify_inc_added:
  "added (classify_inc pv es c) =
     added c @ map snd (filter (\<lambda>(p, inst). map_of pv p = None) es)"
  by (induction es arbitrary: c) (auto split: option.splits)

lemma classify_inc_modified:
  "modified (classify_inc pv es c) =
     modified c @ map snd (filter (\<lambda>(p, inst). \<exists>prev. map_of pv p = Some prev \<and>
                                      createHash_inc inst \<noteq> createHash_inc prev) es)"
  by (induction es arbitrary: c) (auto simp: instancesAreEqual_def split: option.splits)

lemma set_detect_inc_added:
  "set (added (detectChanges_inc pv cur)) =
     {inst. lastAt cur (l_path inst) = Some inst \<and> l_path inst \<notin> fst ` set pv}"
proof -
  have "inst \<in> set (added (detectChanges_inc pv cur)) \<longleftrightarrow>
        (\<exists>p. lastAt cur p = Some inst \<and> map_of pv p = None)" for inst
    by (force simp: detectChanges_inc_def Let_def collect_removed_added classify_inc_added byPath_entry)
  moreover have "(\<exists>p. lastAt cur p = Some inst \<and> map_of pv p = None) \<longleftrightarrow>
        lastAt cur (l_path inst) = Some inst \<and> l_path inst \<notin> fst ` set pv" for inst
    using lastAt_Some by (metis map_of_eq_None_iff)
  ultimately show ?thesis by blast
qed

lemma set_detect_inc_modified:
  "set (modified (detectChanges_inc pv cur)) =
     {inst. lastAt cur (l_path inst) = Some inst \<and>
            (\<exists>prev. map_of pv (l_path inst) = Some prev \<and> createHash_inc inst \<noteq> createHash_inc prev)}"
proof -
  have "inst \<in> set (modified (detectChanges_inc pv cur)) \<longleftrightarrow>
        (\<exists>p. lastAt cur p = Some inst \<and>
             (\<exists>prev. map_of pv p = Some prev \<and> createHash_inc inst \<noteq> createHash_inc prev))" for inst
    by (force simp: detectChanges_inc_def Let_def collect_removed_modified classify_inc_modified byPath_entry)
  moreover have "(\<exists>p. lastAt cur p = Some inst \<and>
             (\<exists>prev. map_of pv p = Some prev \<and> createHash_inc inst \<noteq> createHash_inc prev)) \<longleftrightarrow>
        lastAt cur (l_path inst) = Some inst \<and>
            (\<exists>prev. map_of pv (l_path inst) = Some prev \<and> createHash_inc inst \<noteq> createHash_inc prev)" for inst
    using lastAt_Some by blast
  ultimately show ?thesis by blast
qed

lemma set_detect_inc_removed:
  "set (removed (detectChanges_inc pv cur)) = {p \<in> fst ` set pv. p \<notin> l_path ` set cur}"
  by (auto simp: detectChanges_inc_def Let_def collect_removed_removed classify_inc_removed
      map_of_byPath lastAt_None)

lemma classify_inc_parts:
  fixes pv cur
  defines "d \<equiv> detectChanges_inc pv cur"
  shows "l_path ` set (added d) = {p \<in> l_path ` set cur. p \<notin> fst ` set pv}"
    and "l_path ` set (modified d) =
           {p \<in> l_path ` set cur. \<exists>prev. map_of pv p = Some prev \<and>
              map_option createHash_inc (lastAt cur p) \<noteq> Some (createHash_inc prev)}"
    and "set (removed d) = {p \<in> fst ` set pv. p \<notin> l_path ` set cur}"
    and "\<forall>inst \<in> set (added d) \<union> set (modified d). lastAt cur (l_path inst) = Some inst"
proof -
  have ex: "\<exists>inst. lastAt cur p = Some inst \<and> l_path inst = p" if "p \<in> l_path ` set cur" for p
  proof -
    from that have "lastAt cur p \<noteq> None" by (simp add: lastAt_None)
    then obtain inst where "lastAt cur p = Some inst" by auto
    then show ?thesis using lastAt_Some by blast
  qed
  have mem: "lastAt cur p = Some inst \<Longrightarrow> p \<in> l_path ` set cur" for p inst
    using lastAt_Some by blast
  show "l_path ` set (added d) = {p \<in> l_path ` set cur. p \<notin> fst ` set pv}"
  proof (rule set_eqI)
    fix p
    have "p \<in> l_path ` set (added d) \<longleftrightarrow> (\<exists>inst. lastAt cur p = Some inst \<and> l_path inst = p \<and> p \<notin> fst ` set pv)"
      unfolding d_def set_detect_inc_added by blast
    also have "\<dots> \<longleftrightarrow> p \<in> l_path ` set cur \<and> p \<notin> fst ` set pv"
      using ex [of p] mem [of p] by blast
    finally show "p \<in> l_path ` set (added d) \<longleftrightarrow> p \<in> {p \<in> l_path ` set cur. p \<notin> fst ` set pv}"
      by simp
  qed
  show "l_path ` set (modified d) =
           {p \<in> l_path ` set cur. \<exists>prev. map_of pv p = Some prev \<and>
              map_option createHash_inc (lastAt cur p) \<noteq> Some (createHash_inc prev)}"
  proof (rule set_eqI)
    fix p
    have "p \<in> l_path ` set (modified d) \<longleftrightarrow>
          (\<exists>inst. lastAt cur p = Some inst \<and> l_path inst = p \<and>
             (\<exists>prev. map_of pv p = Some prev \<and> createHash_inc inst \<noteq> createHash_inc prev))"
      unfolding d_def set_detect_inc_modified by blast
    also have "\<dots> \<longleftrightarrow> p \<in> l_path ` set cur \<and>
          (\<exists>prev. map_of pv p = Some prev \<and> map_option createHash_inc (lastAt cur p) \<noteq> Some (createHash_inc prev))"
      using ex [of p] mem [of p] by (cases "lastAt cur p") auto
    finally show "p \<in> l_path ` set (modified d) \<longleftrightarrow>
        p \<in> {p \<in> l_path ` set cur. \<exists>prev. map_of pv p = Some prev \<and>
              map_option createHash_inc (lastAt cur p) \<noteq> Some (createHash_inc prev)}"
      by simp
  qed
  show "set (removed d) = {p \<in> fst ` set pv. p \<notin> l_path ` set cur}"
    unfolding d_def by (rule set_detect_inc_removed)
  show "\<forall>inst \<in> set (added d) \<union> set (modified d). lastAt cur (l_path inst) = Some inst"
    unfolding d_def set_detect_inc_added set_detect_inc_modified by auto
qed

text \<open>
  C4. For every previous table and every snapshot, the paths emitted as added are exactly
  the snapshot paths absent from the previous table, the paths emitted as modified are
  exactly the snapshot paths present in the previous table whose current hash differs
  from the stored one, and the removed paths are exactly the previous table's paths absent
  from the snapshot. Every emitted node is the node the snapshot holds at its path, and
  the three path sets are pairwise disjoint, so an unchanged path is in none. The same
  holds for the variant that stores the previous instances and compares their hashes.
\<close>

theorem detectChanges_classifies:
  "l_path ` set (added (detectChanges pv cur)) = {p \<in> l_path ` set cur. p \<notin> fst ` set pv} \<and>
   l_path ` set (modified (detectChanges pv cur)) =
     {p \<in> l_path ` set cur. \<exists>h. map_of pv p = Some h \<and> map_option createHash (lastAt cur p) \<noteq> Some h} \<and>
   set (removed (detectChanges pv cur)) = {p \<in> fst ` set pv. p \<notin> l_path ` set cur} \<and>
   (\<forall>inst \<in> set (added (detectChanges pv cur)) \<union> set (modified (detectChanges pv cur)).
      lastAt cur (l_path inst) = Some inst) \<and>
   l_path ` set (added (detectChanges pv cur)) \<inter> l_path ` set (modified (detectChanges pv cur)) = {} \<and>
   l_path ` set (added (detectChanges pv cur)) \<inter> set (removed (detectChanges pv cur)) = {} \<and>
   l_path ` set (modified (detectChanges pv cur)) \<inter> set (removed (detectChanges pv cur)) = {} \<and>
   l_path ` set (added (detectChanges_inc pvi cur)) = {p \<in> l_path ` set cur. p \<notin> fst ` set pvi} \<and>
   l_path ` set (modified (detectChanges_inc pvi cur)) =
     {p \<in> l_path ` set cur. \<exists>prev. map_of pvi p = Some prev \<and>
        map_option createHash_inc (lastAt cur p) \<noteq> Some (createHash_inc prev)} \<and>
   set (removed (detectChanges_inc pvi cur)) = {p \<in> fst ` set pvi. p \<notin> l_path ` set cur}"
  by (intro conjI; (rule classify_parts | rule classify_inc_parts))

theorem detectChanges_classifies_witness:
  "added (detectChanges [(''game.X'', ''stale''), (''game.Gone'', ''h'')] [part_x, part_y]) = [part_y] \<and>
   modified (detectChanges [(''game.X'', ''stale''), (''game.Gone'', ''h'')] [part_x, part_y]) = [part_x] \<and>
   removed (detectChanges [(''game.X'', ''stale''), (''game.Gone'', ''h'')] [part_x, part_y]) = [''game.Gone''] \<and>
   lastAt [part_x, part_y] (l_path part_y) = Some part_y \<and>
   lastAt [part_x, part_y] (l_path part_x) = Some part_x"
proof -
  let ?pv = "[(''game.X'', ''stale''), (''game.Gone'', ''h'')]"
  let ?d = "detectChanges ?pv [part_x, part_y]"
  have a: "added ?d = [part_y]" and m: "modified ?d = [part_x]" and r: "removed ?d = [''game.Gone'']"
    by code_simp+
  have "\<forall>inst \<in> set (added ?d) \<union> set (modified ?d). lastAt [part_x, part_y] (l_path inst) = Some inst"
    by (rule detectChanges_classifies [of ?pv "[part_x, part_y]",
          THEN conjunct2, THEN conjunct2, THEN conjunct2, THEN conjunct1])
  then have "lastAt [part_x, part_y] (l_path part_y) = Some part_y"
    and "lastAt [part_x, part_y] (l_path part_x) = Some part_x"
    unfolding a m by simp_all
  with a m r show ?thesis by (intro conjI)
qed

text \<open>
  C5. A cycle that is not skipped by the busy flag replaces the previous table with the
  hashes of the snapshot it ran on, whatever it sent. Against that table the same snapshot
  gives the empty delta, so the next two cycles on the same snapshot send nothing.
\<close>

theorem previous_table_replaced:
  "\<not> isSending st \<Longrightarrow>
   previousInstances (fst (sendUpdates cur st)) = byPath createHash cur \<and>
   detectChanges (previousInstances (fst (sendUpdates cur st))) cur =
     \<lparr>added = [], modified = [], removed = []\<rparr> \<and>
   snd (sendUpdates cur (fst (sendUpdates cur st))) = [] \<and>
   snd (sendUpdates cur (fst (sendUpdates cur (fst (sendUpdates cur st))))) = []"
  by (intro conjI; (rule cycle_parts, assumption))

theorem previous_table_replaced_witness:
  "\<not> isSending \<lparr>isSending = False, isFirstSync = False, previousInstances = [(''game.Gone'', ''h'')]\<rparr> \<and>
   snd (sendUpdates [part_x, part_y]
          \<lparr>isSending = False, isFirstSync = False, previousInstances = [(''game.Gone'', ''h'')]\<rparr>) =
     [IncrementalUpdate [part_x, part_y] [] [''game.Gone'']] \<and>
   snd (sendUpdates [part_x, part_y] (fst (sendUpdates [part_x, part_y]
          \<lparr>isSending = False, isFirstSync = False, previousInstances = [(''game.Gone'', ''h'')]\<rparr>))) = []"
proof -
  let ?st = "\<lparr>isSending = False, isFirstSync = False, previousInstances = [(''game.Gone'', ''h'')]\<rparr>"
  have h: "\<not> isSending ?st" by simp
  have "snd (sendUpdates [part_x, part_y] ?st) = [IncrementalUpdate [part_x, part_y] [] [''game.Gone'']]"
    by code_simp
  moreover have "snd (sendUpdates [part_x, part_y] (fst (sendUpdates [part_x, part_y] ?st))) = []"
    by (rule previous_table_replaced [OF h, of "[part_x, part_y]", THEN conjunct2, THEN conjunct2, THEN conjunct1])
  ultimately show ?thesis using h by (intro conjI)
qed

text \<open>
  C6. For a snapshot of at least one node and a positive batch size, the initial sync
  issues \<open>\<lceil>n / b\<rceil>\<close> batches, with indices \<open>0, 1, \<dots>\<close> in the order of issue; the batches'
  node lists concatenate to the snapshot; and the last-batch flag is set on the last
  batch and on no other.
\<close>

theorem batches_cover:
  "1 \<le> length xs \<Longrightarrow> 0 < b \<Longrightarrow>
   length (initial_sync_batches b xs) = ceil_div (length xs) b \<and>
   int (ceil_div (length xs) b) = \<lceil>real (length xs) / real b\<rceil> \<and>
   map batch_index (initial_sync_batches b xs) = map Some [0 ..< ceil_div (length xs) b] \<and>
   concat (map batch_instances (initial_sync_batches b xs)) = xs \<and>
   map batch_isLast (initial_sync_batches b xs) =
     replicate (ceil_div (length xs) b - 1) False @ [True]"
  by (intro conjI; (rule dispatch_parts, assumption+))

theorem batches_cover_witness:
  "1 \<le> length [part_x, part_y, part_z] \<and> (0::nat) < 2 \<and>
   initial_sync_batches 2 [part_x, part_y, part_z] =
     [GameTreeBatch [part_x, part_y] 0 2 False, GameTreeBatch [part_z] 1 2 True] \<and>
   concat (map batch_instances (initial_sync_batches 2 [part_x, part_y, part_z])) =
     [part_x, part_y, part_z] \<and>
   map batch_isLast (initial_sync_batches 2 [part_x, part_y, part_z]) = [False, True]"
proof -
  have 1: "1 \<le> length [part_x, part_y, part_z]" by simp
  have 2: "(0::nat) < 2" by simp
  have c: "ceil_div (length [part_x, part_y, part_z]) 2 = 2" by code_simp
  have e: "initial_sync_batches 2 [part_x, part_y, part_z] =
     [GameTreeBatch [part_x, part_y] 0 2 False, GameTreeBatch [part_z] 1 2 True]"
    by code_simp
  note t = batches_cover [OF 1 2, unfolded c]
  have 3: "concat (map batch_instances (initial_sync_batches 2 [part_x, part_y, part_z])) = [part_x, part_y, part_z]"
    by (rule t [THEN conjunct2, THEN conjunct2, THEN conjunct2, THEN conjunct1])
  have "map batch_isLast (initial_sync_batches 2 [part_x, part_y, part_z]) = replicate (2 - 1) False @ [True]"
    by (rule t [THEN conjunct2, THEN conjunct2, THEN conjunct2, THEN conjunct2])
  then have 4: "map batch_isLast (initial_sync_batches 2 [part_x, part_y, part_z]) = [False, True]"
    by simp
  from 1 2 e 3 4 show ?thesis by (intro conjI)
qed

section \<open>Properties of the tree reconciler\<close>

subsection \<open>Sorting\<close>










subsection \<open>The example collation\<close>







subsection \<open>Paths\<close>








subsection \<open>The node map is a forest\<close>































subsection \<open>Orphans\<close>
















subsection \<open>Sibling order\<close>





end
